theory Spec2Isabelle
  imports Main "HOL-Library.AList" "HOL-Library.Multiset"
begin

section \<open>Terms and statements (pymantic/primitives.py)\<close>

text \<open>
  The three kinds of term. \<open>NamedNode\<close> is a subclass of \<open>unicode\<close>: it is its own
  string, compares by string equality and is false exactly when the string is empty.
  \<open>BlankNode\<close> is a plain object compared by identity: the argument is the identity
  of the instance. \<open>Literal\<close> is a tuple (value, language, datatype) compared
  field-wise; a tuple of three fields is never false.
\<close>

datatype rdf_term =
    NamedNode string
  | BlankNode nat
  | Literal string "string option" "string option"

fun truthy :: "rdf_term \<Rightarrow> bool" where
  "truthy (NamedNode s) = (s \<noteq> [])"
| "truthy (BlankNode b) = True"
| "truthy (Literal v l d) = True"

datatype triple = Triple (subject: rdf_term) (predicate: rdf_term) (object: rdf_term)

datatype quad = Quad (qsubject: rdf_term) (qpredicate: rdf_term) (qobject: rdf_term)
  (qgraph: rdf_term)

definition q_as_t :: "quad \<Rightarrow> triple" where
  "q_as_t q = Triple (qsubject q) (qpredicate q) (qobject q)"

definition t_as_q :: "rdf_term \<Rightarrow> triple \<Rightarrow> quad" where
  "t_as_q graph_name t = Quad (subject t) (predicate t) (object t) graph_name"

text \<open>
  The exceptions the store can raise: \<open>KeyError\<close> from \<open>set.remove\<close> and \<open>del d[k]\<close>,
  \<open>ValueError\<close> from \<open>Dataset.add_graph\<close>, \<open>RuntimeError\<close> from an iterator whose
  container changed size. A raised exception keeps the mutations made before it, so a
  result is either the exception with the state it left behind, or the state.
\<close>

datatype error = KeyError | ValueError | RuntimeError

type_synonym 's result = "(error \<times> 's) + 's"

section \<open>Python containers\<close>

text \<open>
  A \<open>set\<close> is a duplicate-free list and a \<open>dict\<close> an association list with distinct
  keys; the order of the list stands for the (unspecified) iteration order.
\<close>

definition set_add :: "'a \<Rightarrow> 'a list \<Rightarrow> 'a list" where
  "set_add x xs = (if x \<in> set xs then xs else xs @ [x])"

definition set_remove :: "'a \<Rightarrow> 'a list \<Rightarrow> error + 'a list" where
  "set_remove x xs = (if x \<in> set xs then Inr (removeAll x xs) else Inl KeyError)"

text \<open>
  \<open>Index()\<close> is \<open>defaultdict(Index)\<close>: reading a missing key stores a new empty
  \<open>Index\<close> under it and returns it. \<open>getitem d k\<close> is the value of \<open>d[k]\<close> and
  \<open>vivify d k\<close> is the dictionary after the read.
\<close>

definition getitem :: "('k \<times> 'v list) list \<Rightarrow> 'k \<Rightarrow> 'v list" where
  "getitem d k = (case map_of d k of Some v \<Rightarrow> v | None \<Rightarrow> [])"

definition vivify :: "('k \<times> 'v list) list \<Rightarrow> 'k \<Rightarrow> ('k \<times> 'v list) list" where
  "vivify d k = (case map_of d k of Some v \<Rightarrow> d | None \<Rightarrow> d @ [(k, [])])"

type_synonym leaf = "(rdf_term \<times> triple) list"
type_synonym index = "(rdf_term \<times> (rdf_term \<times> leaf) list) list"

text \<open>The index after evaluating \<open>idx[a][b]\<close>: both levels are created when missing.\<close>

definition vivify2 :: "index \<Rightarrow> rdf_term \<Rightarrow> rdf_term \<Rightarrow> index" where
  "vivify2 idx a b = AList.update a (vivify (getitem idx a) b) (vivify idx a)"

text \<open>\<open>idx[a][b][c] = t\<close>: the two reads create their levels, the leaf is updated in place.\<close>

definition setitem3 :: "index \<Rightarrow> rdf_term \<Rightarrow> rdf_term \<Rightarrow> rdf_term \<Rightarrow> triple \<Rightarrow> index" where
  "setitem3 idx a b c t =
     AList.update a
       (AList.update b (AList.update c t (getitem (getitem idx a) b)) (vivify (getitem idx a) b))
       (vivify idx a)"

text \<open>
  \<open>del idx[a][b][c]\<close>: the two reads create their levels; deleting a key the leaf does
  not have raises \<open>KeyError\<close>, after the reads.
\<close>

definition delitem3 :: "index \<Rightarrow> rdf_term \<Rightarrow> rdf_term \<Rightarrow> rdf_term \<Rightarrow> index result" where
  "delitem3 idx a b c =
     (case map_of (getitem (getitem idx a) b) c of
        Some t \<Rightarrow>
          Inr (AList.update a
                (AList.update b (AList.delete c (getitem (getitem idx a) b))
                   (vivify (getitem idx a) b))
                (vivify idx a))
      | None \<Rightarrow> Inl (KeyError, vivify2 idx a b))"

text \<open>Reading a path without creating anything: what is stored at \<open>idx[a][b][c]\<close>, if anything.\<close>

definition lookup3 :: "index \<Rightarrow> rdf_term \<Rightarrow> rdf_term \<Rightarrow> rdf_term \<Rightarrow> triple option" where
  "lookup3 idx a b c =
     (case map_of idx a of None \<Rightarrow> None
      | Some d \<Rightarrow> (case map_of d b of None \<Rightarrow> None | Some l \<Rightarrow> map_of l c))"

section \<open>Graph\<close>

record graph =
  uri :: rdf_term
  triples :: "triple list"
  spo :: index
  pos :: index
  osp :: index

text \<open>
  The argument of \<open>Graph.__init__\<close>: \<open>None\<close> (the default), a string, or a
  \<open>NamedNode\<close>. Anything that is not a \<open>NamedNode\<close> is passed to the \<open>NamedNode\<close>
  constructor, that is to \<open>unicode\<close>, and \<open>unicode(None)\<close> is the string \<open>None\<close>.
\<close>

datatype uri_arg = PyNone | PyStr string | PyNamedNode string

fun Graph_init :: "uri_arg \<Rightarrow> graph" where
  "Graph_init PyNone =
     \<lparr>uri = NamedNode ''None'', triples = [], spo = [], pos = [], osp = []\<rparr>"
| "Graph_init (PyStr s) =
     \<lparr>uri = NamedNode s, triples = [], spo = [], pos = [], osp = []\<rparr>"
| "Graph_init (PyNamedNode s) =
     \<lparr>uri = NamedNode s, triples = [], spo = [], pos = [], osp = []\<rparr>"

definition Graph_add :: "graph \<Rightarrow> triple \<Rightarrow> graph" where
  "Graph_add g t =
     g\<lparr>triples := set_add t (triples g),
       spo := setitem3 (spo g) (subject t) (predicate t) (object t) t,
       pos := setitem3 (pos g) (predicate t) (object t) (subject t) t,
       osp := setitem3 (osp g) (object t) (subject t) (predicate t) t\<rparr>"

text \<open>
  \<open>Graph.remove\<close> is four statements, each of which can raise; the ones before it
  have taken effect by then.
\<close>

definition Graph_remove :: "graph \<Rightarrow> triple \<Rightarrow> graph result" where
  "Graph_remove g t =
     (case set_remove t (triples g) of
        Inl e \<Rightarrow> Inl (e, g)
      | Inr ts \<Rightarrow>
          (let g1 = g\<lparr>triples := ts\<rparr> in
           case delitem3 (spo g1) (subject t) (predicate t) (object t) of
             Inl (e, i) \<Rightarrow> Inl (e, g1\<lparr>spo := i\<rparr>)
           | Inr i \<Rightarrow>
               (let g2 = g1\<lparr>spo := i\<rparr> in
                case delitem3 (pos g2) (predicate t) (object t) (subject t) of
                  Inl (e, i) \<Rightarrow> Inl (e, g2\<lparr>pos := i\<rparr>)
                | Inr i \<Rightarrow>
                    (let g3 = g2\<lparr>pos := i\<rparr> in
                     case delitem3 (osp g3) (object t) (subject t) (predicate t) of
                       Inl (e, i) \<Rightarrow> Inl (e, g3\<lparr>osp := i\<rparr>)
                     | Inr i \<Rightarrow> Inr (g3\<lparr>osp := i\<rparr>)))))"

definition Graph_contains :: "graph \<Rightarrow> triple \<Rightarrow> bool" where
  "Graph_contains g item = (item \<in> set (triples g))"

definition Graph_len :: "graph \<Rightarrow> nat" where
  "Graph_len g = length (triples g)"

section \<open>Iteration\<close>

text \<open>
  A \<open>for\<close> loop over a set, a dictionary or one of its \<open>iter*\<close> views. The iterator
  remembers the size of its container when it is created (\<open>used\<close>) and its position
  (\<open>i\<close>); each \<open>next\<close> first compares the size of the live container with \<open>used\<close>
  and raises \<open>RuntimeError\<close> when they differ, then returns the element at the position,
  or stops. \<open>items st\<close> reads the container from the current state. The body can
  raise, which ends the loop.
\<close>

function for_iter ::
  "('s \<Rightarrow> 'x list) \<Rightarrow> nat \<Rightarrow> nat \<Rightarrow> ('x \<Rightarrow> 's \<Rightarrow> 's result) \<Rightarrow> 's \<Rightarrow> 's result" where
  "for_iter items used i body st =
     (if length (items st) \<noteq> used then Inl (RuntimeError, st)
      else if i < used then
        (case body (items st ! i) st of
           Inl e \<Rightarrow> Inl e
         | Inr st' \<Rightarrow> for_iter items used (Suc i) body st')
      else Inr st)"
  by pat_completeness auto
termination
  by (relation "measure (\<lambda>(items, used, i, body, st). used - i)") auto

definition for_each :: "('s \<Rightarrow> 'x list) \<Rightarrow> ('x \<Rightarrow> 's \<Rightarrow> 's result) \<Rightarrow> 's \<Rightarrow> 's result" where
  "for_each items body st = for_iter items (length (items st)) 0 body st"

section \<open>Graph.match\<close>

text \<open>
  \<open>match\<close> tests its arguments with \<open>if subject:\<close>, \<open>if predicate:\<close>, \<open>if object:\<close>:
  an argument passes when it is not \<open>None\<close> and is true.
\<close>

definition bound :: "rdf_term option \<Rightarrow> rdf_term option" where
  "bound x = (case x of None \<Rightarrow> None | Some t \<Rightarrow> if truthy t then Some t else None)"

text \<open>
  \<open>match\<close> is a generator: its body runs interleaved with the loop that consumes it.
  The model takes the consumer's loop body as \<open>yield\<close> and runs it at each
  \<open>yield\<close> statement, on a state \<open>'s\<close> in which \<open>get\<close> reads the graph and \<open>upd\<close>
  changes it. The eight equations are the eight branches of the source, in its order.
\<close>

fun match_dispatch ::
  "('s \<Rightarrow> graph) \<Rightarrow> ((graph \<Rightarrow> graph) \<Rightarrow> 's \<Rightarrow> 's) \<Rightarrow>
   rdf_term option \<Rightarrow> rdf_term option \<Rightarrow> rdf_term option \<Rightarrow>
   (triple \<Rightarrow> 's \<Rightarrow> 's result) \<Rightarrow> 's \<Rightarrow> 's result" where
  "match_dispatch get upd (Some s) (Some p) (Some ob) yield st =
     (if Graph_contains (get st) (Triple s p ob) then yield (Triple s p ob) st else Inr st)"
| "match_dispatch get upd (Some s) (Some p) None yield st =
     for_each (\<lambda>st. map snd (getitem (getitem (spo (get st)) s) p)) yield
       (upd (\<lambda>g. g\<lparr>spo := vivify2 (spo g) s p\<rparr>) st)"
| "match_dispatch get upd (Some s) None (Some ob) yield st =
     for_each (\<lambda>st. map snd (getitem (getitem (osp (get st)) ob) s)) yield
       (upd (\<lambda>g. g\<lparr>osp := vivify2 (osp g) ob s\<rparr>) st)"
| "match_dispatch get upd (Some s) None None yield st =
     for_each (\<lambda>st. map fst (getitem (spo (get st)) s))
       (\<lambda>p st. for_each (\<lambda>st. map snd (getitem (getitem (spo (get st)) s) p)) yield
                 (upd (\<lambda>g. g\<lparr>spo := vivify2 (spo g) s p\<rparr>) st))
       (upd (\<lambda>g. g\<lparr>spo := vivify (spo g) s\<rparr>) st)"
| "match_dispatch get upd None (Some p) (Some ob) yield st =
     for_each (\<lambda>st. map snd (getitem (getitem (pos (get st)) p) ob)) yield
       (upd (\<lambda>g. g\<lparr>pos := vivify2 (pos g) p ob\<rparr>) st)"
| "match_dispatch get upd None (Some p) None yield st =
     for_each (\<lambda>st. map fst (getitem (pos (get st)) p))
       (\<lambda>ob st. for_each (\<lambda>st. map snd (getitem (getitem (pos (get st)) p) ob)) yield
                  (upd (\<lambda>g. g\<lparr>pos := vivify2 (pos g) p ob\<rparr>) st))
       (upd (\<lambda>g. g\<lparr>pos := vivify (pos g) p\<rparr>) st)"
| "match_dispatch get upd None None (Some ob) yield st =
     for_each (\<lambda>st. map fst (getitem (osp (get st)) ob))
       (\<lambda>s st. for_each (\<lambda>st. map snd (getitem (getitem (osp (get st)) ob) s)) yield
                 (upd (\<lambda>g. g\<lparr>osp := vivify2 (osp g) ob s\<rparr>) st))
       (upd (\<lambda>g. g\<lparr>osp := vivify (osp g) ob\<rparr>) st)"
| "match_dispatch get upd None None None yield st =
     for_each (\<lambda>st. triples (get st)) yield st"

definition match_gen ::
  "('s \<Rightarrow> graph) \<Rightarrow> ((graph \<Rightarrow> graph) \<Rightarrow> 's \<Rightarrow> 's) \<Rightarrow>
   rdf_term option \<Rightarrow> rdf_term option \<Rightarrow> rdf_term option \<Rightarrow>
   (triple \<Rightarrow> 's \<Rightarrow> 's result) \<Rightarrow> 's \<Rightarrow> 's result" where
  "match_gen get upd s p ob yield st =
     match_dispatch get upd (bound s) (bound p) (bound ob) yield st"

text \<open>
  \<open>list(g.match(s, p, ob))\<close>: the consumer appends each triple to a
  list; the state is the graph with the list.
\<close>

definition Graph_match :: "graph \<Rightarrow> rdf_term option \<Rightarrow> rdf_term option \<Rightarrow> rdf_term option \<Rightarrow>
    (graph \<times> triple list) result" where
  "Graph_match g s p ob =
     match_gen fst apfst s p ob (\<lambda>t (g, acc). Inr (g, acc @ [t])) (g, [])"

text \<open>
  \<open>removeMatches\<close> consumes the generator with the loop body \<open>self.remove(triple)\<close>.
\<close>

definition Graph_removeMatches ::
  "graph \<Rightarrow> rdf_term option \<Rightarrow> rdf_term option \<Rightarrow> rdf_term option \<Rightarrow> graph result" where
  "Graph_removeMatches g s p ob =
     match_gen (\<lambda>g. g) (\<lambda>f g. f g) s p ob (\<lambda>t g. Graph_remove g t) g"

text \<open>\<open>addAll\<close> of a sequence of triples: \<open>add\<close> for each, in order.\<close>

definition Graph_addAll :: "graph \<Rightarrow> triple list \<Rightarrow> graph" where
  "Graph_addAll g graph_or_triples = fold (\<lambda>t g. Graph_add g t) graph_or_triples g"

text \<open>
  \<open>merge\<close> works on three objects: \<open>self\<close>, the argument and the new graph. The loops
  iterate the primary sets of the first two and add to the third.
\<close>

record merge_frame =
  self :: graph
  other :: graph
  new_graph :: graph

definition Graph_merge :: "graph \<Rightarrow> graph \<Rightarrow> merge_frame result" where
  "Graph_merge slf grph =
     (case for_each (\<lambda>f. triples (other f))
             (\<lambda>t f. Inr (f\<lparr>new_graph := Graph_add (new_graph f) t\<rparr>))
             \<lparr>self = slf, other = grph, new_graph = Graph_init PyNone\<rparr> of
        Inl e \<Rightarrow> Inl e
      | Inr f \<Rightarrow>
          for_each (\<lambda>f. triples (self f))
            (\<lambda>t f. Inr (f\<lparr>new_graph := Graph_add (new_graph f) t\<rparr>)) f)"

section \<open>Dataset\<close>

text \<open>
  A \<open>Dataset\<close> holds references to \<open>Graph\<close> objects, and \<open>add_graph\<close> can register
  one object under several names, so the graphs live in a store: \<open>objs\<close> maps an
  address to the object there, \<open>fresh\<close> is the next unused address, and \<open>graphs\<close> is
  the dictionary \<open>Dataset._graphs\<close> from graph name to address.
\<close>

record world =
  objs :: "nat \<Rightarrow> graph"
  fresh :: nat
  graphs :: "(rdf_term \<times> nat) list"

definition Dataset_init :: world where
  "Dataset_init = \<lparr>objs = (\<lambda>a. Graph_init PyNone), fresh = 0, graphs = []\<rparr>"

text \<open>\<open>Graph(u)\<close>: a new object at the next address.\<close>

definition new_Graph :: "world \<Rightarrow> uri_arg \<Rightarrow> world \<times> nat" where
  "new_Graph w u = (w\<lparr>objs := (objs w)(fresh w := Graph_init u), fresh := Suc (fresh w)\<rparr>, fresh w)"

text \<open>
  \<open>self._graphs[k]\<close> on \<open>defaultdict(Graph)\<close>: a missing key is given a new \<open>Graph()\<close>.
\<close>

definition graphs_getitem :: "world \<Rightarrow> rdf_term \<Rightarrow> world \<times> nat" where
  "graphs_getitem w k =
     (case map_of (graphs w) k of
        Some a \<Rightarrow> (w, a)
      | None \<Rightarrow> (let (w', a) = new_Graph w PyNone in (w'\<lparr>graphs := graphs w' @ [(k, a)]\<rparr>, a)))"

definition heap_upd :: "nat \<Rightarrow> (graph \<Rightarrow> graph) \<Rightarrow> world \<Rightarrow> world" where
  "heap_upd a f w = w\<lparr>objs := (objs w)(a := f (objs w a))\<rparr>"

definition Dataset_add :: "world \<Rightarrow> quad \<Rightarrow> world" where
  "Dataset_add w q =
     (let (w1, a1) = graphs_getitem w (qgraph q);
          w2 = heap_upd a1 (\<lambda>g. g\<lparr>uri := qgraph q\<rparr>) w1;
          (w3, a2) = graphs_getitem w2 (qgraph q)
      in heap_upd a2 (\<lambda>g. Graph_add g (q_as_t q)) w3)"

definition Dataset_remove :: "world \<Rightarrow> quad \<Rightarrow> world result" where
  "Dataset_remove w q =
     (let (w1, a) = graphs_getitem w (qgraph q) in
      case Graph_remove (objs w1 a) (q_as_t q) of
        Inl (e, g') \<Rightarrow> Inl (e, heap_upd a (\<lambda>g. g') w1)
      | Inr g' \<Rightarrow> Inr (heap_upd a (\<lambda>g. g') w1))"

text \<open>
  \<open>add_graph(graph, named)\<close>: \<open>graph\<close> is the address of the object; \<open>named or graph.uri\<close>
  is \<open>named\<close> when it is given and true, else the graph's own name.
\<close>

definition Dataset_add_graph :: "world \<Rightarrow> nat \<Rightarrow> rdf_term option \<Rightarrow> world result" where
  "Dataset_add_graph w graph named =
     (let name = (case bound named of Some n \<Rightarrow> n | None \<Rightarrow> uri (objs w graph)) in
      if truthy name then
        (let w1 = heap_upd graph (\<lambda>g. g\<lparr>uri := name\<rparr>) w in
         Inr (w1\<lparr>graphs := AList.update (uri (objs w1 graph)) graph (graphs w1)\<rparr>))
      else Inl (ValueError, w))"

text \<open>
  \<open>Dataset.match\<close> is a generator over the generators of its graphs; as for
  \<open>Graph.match\<close> the consumer's loop body is the argument \<open>yield\<close>, and the state is
  the store with whatever the consumer keeps.
\<close>

definition Dataset_match_gen ::
  "rdf_term option \<Rightarrow> rdf_term option \<Rightarrow> rdf_term option \<Rightarrow> rdf_term option \<Rightarrow>
   (quad \<Rightarrow> world \<times> 'a \<Rightarrow> (world \<times> 'a) result) \<Rightarrow> world \<times> 'a \<Rightarrow> (world \<times> 'a) result" where
  "Dataset_match_gen s p ob graph yield st =
     (case bound graph of
        Some gn \<Rightarrow>
          (let (w1, a) = graphs_getitem (fst st) gn in
           match_gen (\<lambda>st. objs (fst st) a) (\<lambda>f. apfst (heap_upd a f)) s p ob
             (\<lambda>t. yield (t_as_q gn t)) (w1, snd st))
      | None \<Rightarrow>
          for_each (\<lambda>st. graphs (fst st))
            (\<lambda>(graph_uri, a).
               match_gen (\<lambda>st. objs (fst st) a) (\<lambda>f. apfst (heap_upd a f)) s p ob
                 (\<lambda>t. yield (t_as_q graph_uri t)))
            st)"

text \<open>\<open>list(ds.match(s, p, ob, graph))\<close>.\<close>

definition Dataset_match ::
  "world \<Rightarrow> rdf_term option \<Rightarrow> rdf_term option \<Rightarrow> rdf_term option \<Rightarrow> rdf_term option \<Rightarrow>
   (world \<times> quad list) result" where
  "Dataset_match w s p ob graph =
     Dataset_match_gen s p ob graph (\<lambda>q (w, acc). Inr (w, acc @ [q])) (w, [])"

text \<open>\<open>Dataset.removeMatches\<close>: the loop body is \<open>self.remove(quad)\<close>.\<close>

definition Dataset_removeMatches ::
  "world \<Rightarrow> rdf_term option \<Rightarrow> rdf_term option \<Rightarrow> rdf_term option \<Rightarrow> rdf_term option \<Rightarrow>
   world result" where
  "Dataset_removeMatches w s p ob graph =
     map_sum (\<lambda>(e, st). (e, fst st)) fst
       (Dataset_match_gen s p ob graph
          (\<lambda>q (w, u). map_sum (\<lambda>(e, w'). (e, (w', u))) (\<lambda>w'. (w', u)) (Dataset_remove w q))
          (w, ()))"

section \<open>Vocabulary of the properties\<close>

text \<open>The state an operation leaves behind, whether it returned or raised, and what it raised.\<close>

definition result_state :: "'s result \<Rightarrow> 's" where
  "result_state r = (case r of Inl (e, s) \<Rightarrow> s | Inr s \<Rightarrow> s)"

definition result_error :: "'s result \<Rightarrow> error option" where
  "result_error r = (case r of Inl (e, s) \<Rightarrow> Some e | Inr s \<Rightarrow> None)"

text \<open>
  Brute-force filtering: a triple passes when each field of the pattern that is given
  equals the triple's field.
\<close>

definition matches :: "rdf_term option \<Rightarrow> rdf_term option \<Rightarrow> rdf_term option \<Rightarrow> triple \<Rightarrow> bool" where
  "matches s p ob t \<longleftrightarrow>
     (case s of None \<Rightarrow> True | Some x \<Rightarrow> subject t = x) \<and>
     (case p of None \<Rightarrow> True | Some x \<Rightarrow> predicate t = x) \<and>
     (case ob of None \<Rightarrow> True | Some x \<Rightarrow> object t = x)"

text \<open>
  The graphs that the public operations of \<open>Graph\<close> can produce from a new graph. An
  operation that raises leaves a state too, and that state counts.
\<close>

inductive reachable :: "graph \<Rightarrow> bool" where
  init: "reachable (Graph_init u)"
| add: "reachable g \<Longrightarrow> reachable (Graph_add g t)"
| remove: "reachable g \<Longrightarrow> reachable (result_state (Graph_remove g t))"
| match: "reachable g \<Longrightarrow> reachable (fst (result_state (Graph_match g s p ob)))"
| removeMatches: "reachable g \<Longrightarrow> reachable (result_state (Graph_removeMatches g s p ob))"
| addAll: "reachable g \<Longrightarrow> reachable (Graph_addAll g ts)"
| merge: "reachable g1 \<Longrightarrow> reachable g2 \<Longrightarrow>
          reachable (new_graph (result_state (Graph_merge g1 g2)))"

text \<open>
  The invariant behind the proofs: the lists that stand for sets and dictionaries have
  no duplicates, and each index holds exactly the triples of the primary set, each at
  the path of its own fields.
\<close>

definition wf_index :: "index \<Rightarrow> bool" where
  "wf_index idx \<longleftrightarrow> distinct (map fst idx) \<and>
     (\<forall>a b. distinct (map fst (getitem idx a)) \<and> distinct (map fst (getitem (getitem idx a) b)))"

definition graph_inv :: "graph \<Rightarrow> bool" where
  "graph_inv g \<longleftrightarrow> distinct (triples g) \<and>
     wf_index (spo g) \<and> wf_index (pos g) \<and> wf_index (osp g) \<and>
     (\<forall>a b c t. lookup3 (spo g) a b c = Some t \<longleftrightarrow> t = Triple a b c \<and> t \<in> set (triples g)) \<and>
     (\<forall>a b c t. lookup3 (pos g) a b c = Some t \<longleftrightarrow> t = Triple c a b \<and> t \<in> set (triples g)) \<and>
     (\<forall>a b c t. lookup3 (osp g) a b c = Some t \<longleftrightarrow> t = Triple b c a \<and> t \<in> set (triples g))"

text \<open>
  What \<open>list(g.match(...))\<close> computes when nothing interferes with the iteration: the
  graph after the reads, and the triples in the order of the index.
\<close>

definition leaf_values :: "index \<Rightarrow> rdf_term \<Rightarrow> rdf_term \<Rightarrow> triple list" where
  "leaf_values idx a b = map snd (getitem (getitem idx a) b)"

definition branch_values :: "index \<Rightarrow> rdf_term \<Rightarrow> triple list" where
  "branch_values idx a = concat (map (leaf_values idx a) (map fst (getitem idx a)))"

fun match_plain :: "graph \<Rightarrow> rdf_term option \<Rightarrow> rdf_term option \<Rightarrow> rdf_term option \<Rightarrow>
    graph \<times> triple list" where
  "match_plain g (Some s) (Some p) (Some ob) =
     (g, if Triple s p ob \<in> set (triples g) then [Triple s p ob] else [])"
| "match_plain g (Some s) (Some p) None = (g\<lparr>spo := vivify2 (spo g) s p\<rparr>, leaf_values (spo g) s p)"
| "match_plain g (Some s) None (Some ob) = (g\<lparr>osp := vivify2 (osp g) ob s\<rparr>, leaf_values (osp g) ob s)"
| "match_plain g (Some s) None None = (g\<lparr>spo := vivify (spo g) s\<rparr>, branch_values (spo g) s)"
| "match_plain g None (Some p) (Some ob) = (g\<lparr>pos := vivify2 (pos g) p ob\<rparr>, leaf_values (pos g) p ob)"
| "match_plain g None (Some p) None = (g\<lparr>pos := vivify (pos g) p\<rparr>, branch_values (pos g) p)"
| "match_plain g None None (Some ob) = (g\<lparr>osp := vivify (osp g) ob\<rparr>, branch_values (osp g) ob)"
| "match_plain g None None None = (g, triples g)"

text \<open>The objects of the examples.\<close>

definition ex_s :: rdf_term where "ex_s = NamedNode ''http://ex/s''"
definition ex_p :: rdf_term where "ex_p = NamedNode ''http://ex/p''"
definition ex_v :: rdf_term where "ex_v = Literal ''v'' None None"
definition ex_w :: rdf_term where "ex_w = Literal ''w'' None None"
definition ex_t :: triple where "ex_t = Triple ex_s ex_p ex_v"
definition ex_t2 :: triple where "ex_t2 = Triple ex_s ex_p ex_w"
definition ex_g :: graph where "ex_g = Graph_add (Graph_init PyNone) ex_t"
definition ex_g2 :: graph where "ex_g2 = Graph_add ex_g ex_t2"
definition ex_name :: rdf_term where "ex_name = NamedNode ''http://ex/g''"
definition ex_q :: quad where "ex_q = t_as_q ex_name ex_t"
definition ex_q2 :: quad where "ex_q2 = t_as_q ex_name ex_t2"
definition ex_ds :: world where "ex_ds = Dataset_add Dataset_init ex_q"

section \<open>Dictionaries with default values\<close>

lemma map_of_vivify:
  "map_of (vivify d k) k' = (if k' = k \<and> map_of d k = None then Some [] else map_of d k')"
  by (auto simp: vivify_def map_add_def split: option.splits)

lemma getitem_vivify [simp]: "getitem (vivify d k) k' = getitem d k'"
  by (simp add: getitem_def map_of_vivify)

lemma keys_vivify: "map fst (vivify d k) = (if k \<in> set (map fst d) then map fst d else map fst d @ [k])"
  by (auto simp: vivify_def map_of_eq_None_iff split: option.splits) (metis domI domIff map_of_eq_None_iff image_eqI fst_conv)+

lemma vivify_present: "k \<in> fst ` set d \<Longrightarrow> vivify d k = d"
  by (auto simp: vivify_def map_of_eq_None_iff split: option.splits)

lemma map_of_getitem: "k \<in> fst ` set d \<Longrightarrow> map_of d k = Some (getitem d k)"
  by (auto simp: getitem_def map_of_eq_None_iff split: option.splits)

lemma update_getitem: "k \<in> fst ` set d \<Longrightarrow> AList.update k (getitem d k) d = d"
  by (simp add: update_triv map_of_getitem)

lemma vivify2_present:
  "a \<in> fst ` set idx \<Longrightarrow> b \<in> fst ` set (getitem idx a) \<Longrightarrow> vivify2 idx a b = idx"
  by (simp add: vivify2_def vivify_present update_getitem)

lemma getitem_update [simp]: "getitem (AList.update k v d) k' = (if k' = k then v else getitem d k')"
  by (simp add: getitem_def update_conv')

lemma getitem_vivify2 [simp]: "getitem (getitem (vivify2 idx a b) a') b' = getitem (getitem idx a') b'"
  by (simp add: vivify2_def)

lemma lookup3_getitem: "lookup3 idx a b c = map_of (getitem (getitem idx a) b) c"
  by (simp add: lookup3_def getitem_def split: option.splits)

lemma lookup3_vivify [simp]: "lookup3 (vivify idx a) x y z = lookup3 idx x y z"
  by (simp add: lookup3_getitem)

lemma lookup3_vivify2 [simp]: "lookup3 (vivify2 idx a b) x y z = lookup3 idx x y z"
  by (simp add: lookup3_getitem)

lemma lookup3_setitem3:
  "lookup3 (setitem3 idx a b c t) x y z =
     (if x = a \<and> y = b \<and> z = c then Some t else lookup3 idx x y z)"
  by (simp add: lookup3_getitem setitem3_def update_conv')

lemma delitem3_Inr_iff: "(\<exists>i. delitem3 idx a b c = Inr i) \<longleftrightarrow> lookup3 idx a b c \<noteq> None"
  by (auto simp: delitem3_def lookup3_getitem split: option.splits)

lemma lookup3_delitem3:
  "delitem3 idx a b c = Inr i \<Longrightarrow>
   lookup3 i x y z = (if x = a \<and> y = b \<and> z = c then None else lookup3 idx x y z)"
  by (auto simp: delitem3_def lookup3_getitem delete_conv' split: if_splits option.splits)

section \<open>Preservation of the invariant\<close>

lemma result_state_simps [simp]: "result_state (Inl (e, s)) = s" "result_state (Inr s) = s"
  by (simp_all add: result_state_def)

lemma getitem_Nil [simp]: "getitem [] k = []"
  by (simp add: getitem_def)

lemma wf_index_Nil [simp]: "wf_index []"
  by (simp add: wf_index_def)

lemma distinct_keys_vivify: "distinct (map fst d) \<Longrightarrow> distinct (map fst (vivify d k))"
  by (simp add: keys_vivify)

lemma wf_index_vivify: "wf_index idx \<Longrightarrow> wf_index (vivify idx a)"
  by (simp add: wf_index_def distinct_keys_vivify)

lemma wf_index_vivify2: "wf_index idx \<Longrightarrow> wf_index (vivify2 idx a b)"
  by (simp add: wf_index_def vivify2_def distinct_update distinct_keys_vivify)

lemma wf_index_setitem3: "wf_index idx \<Longrightarrow> wf_index (setitem3 idx a b c t)"
  by (simp add: wf_index_def setitem3_def distinct_update distinct_keys_vivify)

lemma wf_index_delitem3: "wf_index idx \<Longrightarrow> delitem3 idx a b c = Inr i \<Longrightarrow> wf_index i"
  by (auto simp: wf_index_def delitem3_def distinct_update distinct_delete distinct_keys_vivify
      split: if_splits option.splits)

lemma set_set_add [simp]: "set (set_add x xs) = insert x (set xs)"
  by (auto simp: set_add_def)

lemma distinct_set_add: "distinct xs \<Longrightarrow> distinct (set_add x xs)"
  by (simp add: set_add_def)

lemma graph_inv_init: "graph_inv (Graph_init u)"
  by (cases u) (simp_all add: graph_inv_def lookup3_def)

lemma graph_inv_add: "graph_inv g \<Longrightarrow> graph_inv (Graph_add g t)"
  unfolding graph_inv_def Graph_add_def
  by (cases t) (auto simp: lookup3_setitem3 wf_index_setitem3 distinct_set_add)

lemma Graph_remove_absent: "t \<notin> set (triples g) \<Longrightarrow> Graph_remove g t = Inl (KeyError, g)"
  by (simp add: Graph_remove_def set_remove_def)

lemma Graph_remove_present:
  assumes inv: "graph_inv g" and mem: "t \<in> set (triples g)"
  shows "\<exists>g'. Graph_remove g t = Inr g' \<and> graph_inv g' \<and>
           triples g' = removeAll t (triples g) \<and> uri g' = uri g"
proof -
  obtain s p ob where t: "t = Triple s p ob" by (cases t)
  from inv mem t have "lookup3 (spo g) s p ob \<noteq> None" "lookup3 (pos g) p ob s \<noteq> None"
    "lookup3 (osp g) ob s p \<noteq> None"
    by (auto simp: graph_inv_def)
  then obtain i1 i2 i3 where
    i1: "delitem3 (spo g) s p ob = Inr i1" and
    i2: "delitem3 (pos g) p ob s = Inr i2" and
    i3: "delitem3 (osp g) ob s p = Inr i3"
    using delitem3_Inr_iff by metis
  let ?g' = "g\<lparr>triples := removeAll t (triples g), spo := i1, pos := i2, osp := i3\<rparr>"
  have r: "Graph_remove g t = Inr ?g'"
    using mem t i1 i2 i3 by (simp add: Graph_remove_def set_remove_def)
  have "graph_inv ?g'"
    using inv t unfolding graph_inv_def
    by (auto simp: lookup3_delitem3[OF i1] lookup3_delitem3[OF i2] lookup3_delitem3[OF i3]
        wf_index_delitem3[OF _ i1] wf_index_delitem3[OF _ i2] wf_index_delitem3[OF _ i3]
        distinct_removeAll)
  with r show ?thesis by simp
qed

lemma graph_inv_remove: "graph_inv g \<Longrightarrow> graph_inv (result_state (Graph_remove g t))"
proof (cases "t \<in> set (triples g)")
  case True
  assume "graph_inv g"
  from Graph_remove_present[OF this True] show ?thesis by auto
next
  case False
  assume "graph_inv g"
  then show ?thesis by (simp add: Graph_remove_absent[OF False])
qed

section \<open>Loops whose body leaves the container alone\<close>

text \<open>
  A loop whose body returns and does not change what \<open>items\<close> reads is a fold over the
  container; and whatever the body does, a property that every step keeps holds for the
  state the loop leaves behind.
\<close>

declare for_iter.simps [simp del]

lemma for_iter_pure:
  assumes body: "\<And>x st. I st \<Longrightarrow> x \<in> set xs \<Longrightarrow> body x st = Inr (f x st) \<and> I (f x st)"
      and items: "\<And>st. I st \<Longrightarrow> items st = xs"
  shows "I st \<Longrightarrow> i \<le> length xs \<Longrightarrow>
         for_iter items (length xs) i body st = Inr (fold f (drop i xs) st) \<and>
         I (fold f (drop i xs) st)"
proof (induction "length xs - i" arbitrary: i st)
  case 0
  then show ?case by (subst for_iter.simps) (simp add: items)
next
  case (Suc n)
  then have lt: "i < length xs" by simp
  then have b: "body (xs ! i) st = Inr (f (xs ! i) st)" and I': "I (f (xs ! i) st)"
    using body[OF Suc.prems(1), of "xs ! i"] by simp_all
  have n: "n = length xs - Suc i" using Suc.hyps(2) by simp
  from Suc.hyps(1)[OF n I'] lt
  have IH: "for_iter items (length xs) (Suc i) body (f (xs ! i) st) =
          Inr (fold f (drop (Suc i) xs) (f (xs ! i) st)) \<and>
          I (fold f (drop (Suc i) xs) (f (xs ! i) st))" by simp
  have d: "drop i xs = xs ! i # drop (Suc i) xs" using lt by (simp add: Cons_nth_drop_Suc)
  show ?case
    by (subst for_iter.simps) (simp add: items[OF Suc.prems(1)] lt b IH d)
qed

lemma for_each_pure:
  assumes "\<And>x st. I st \<Longrightarrow> x \<in> set xs \<Longrightarrow> body x st = Inr (f x st) \<and> I (f x st)"
      and "\<And>st. I st \<Longrightarrow> items st = xs" and "I st"
  shows "for_each items body st = Inr (fold f xs st)"
  using for_iter_pure[of I xs body f items st 0, OF assms(1,2)] assms(2,3)
  by (simp add: for_each_def)

lemma for_iter_inv:
  assumes body: "\<And>x st. I st \<Longrightarrow> I (result_state (body x st))"
  shows "I st \<Longrightarrow> I (result_state (for_iter items used i body st))"
proof (induction "used - i" arbitrary: i st)
  case 0
  then show ?case by (subst for_iter.simps) simp
next
  case (Suc n)
  show ?case
  proof (cases "body (items st ! i) st")
    case (Inl e)
    have "I (result_state (Inl e))"
      using body[OF Suc.prems, of "items st ! i"] by (simp add: Inl)
    with Suc.prems Inl show ?thesis
      by (subst for_iter.simps) simp
  next
    case (Inr st')
    with body[OF Suc.prems, of "items st ! i"] have I': "I st'" by simp
    have "n = used - Suc i" using Suc.hyps(2) by simp
    from Suc.hyps(1)[OF this I'] Suc.prems Inr show ?thesis
      by (subst for_iter.simps) simp
  qed
qed

lemma for_each_inv:
  assumes "\<And>x st. I st \<Longrightarrow> I (result_state (body x st))"
  shows "I st \<Longrightarrow> I (result_state (for_each items body st))"
  unfolding for_each_def by (rule for_iter_inv) (rule assms)

section \<open>What match computes\<close>

lemma fold_collect: "fold (\<lambda>t (g, acc). (g, acc @ [t])) xs (g, acc) = (g, acc @ xs)"
  by (induction xs arbitrary: acc) auto

lemma collect_loop:
  assumes "\<And>g acc. items (g, acc) = h g"
  shows "for_each items (\<lambda>t (g, acc). Inr (g, acc @ [t])) (g, acc) = Inr (g, acc @ h g)"
proof -
  have "for_each items (\<lambda>t (g, acc). Inr (g, acc @ [t])) (g, acc) =
        Inr (fold (\<lambda>t (g, acc). (g, acc @ [t])) (h g) (g, acc))"
    by (rule for_each_pure[where I = "\<lambda>st. fst st = g"]) (auto simp: assms)
  then show ?thesis by (simp add: fold_collect)
qed

lemma fold_collect2:
  "fold (\<lambda>k (g, acc). (g, acc @ hv k g)) ks (g, acc) = (g, acc @ concat (map (\<lambda>k. hv k g) ks))"
  by (induction ks arbitrary: acc) auto

lemma collect_loop2:
  assumes keys: "\<And>g acc. keys (g, acc) = hk g"
      and vals: "\<And>k g acc. vals k (g, acc) = hv k g"
      and viv: "\<And>k. k \<in> set (hk g) \<Longrightarrow> viv k g = g"
  shows "for_each keys
           (\<lambda>k st. for_each (vals k) (\<lambda>t (g, acc). Inr (g, acc @ [t])) (apfst (viv k) st)) (g, acc) =
         Inr (g, acc @ concat (map (\<lambda>k. hv k g) (hk g)))"
proof -
  have body: "for_each (vals k) (\<lambda>t (g, acc). Inr (g, acc @ [t])) (viv k g, acc') =
              Inr (g, acc' @ hv k g)" if "k \<in> set (hk g)" for k acc'
    using collect_loop[of "vals k" "hv k" g acc', OF vals] viv[OF that] by simp
  have "for_each keys
           (\<lambda>k st. for_each (vals k) (\<lambda>t (g, acc). Inr (g, acc @ [t])) (apfst (viv k) st)) (g, acc) =
        Inr (fold (\<lambda>k (g, acc). (g, acc @ hv k g)) (hk g) (g, acc))"
    by (rule for_each_pure[where I = "\<lambda>st. fst st = g"]) (auto simp: keys body)
  then show ?thesis by (simp add: fold_collect2)
qed

lemma vivify_key: "a \<in> fst ` set (vivify d a)"
  by (cases "map_of d a") (auto simp: vivify_def dest: map_of_SomeD intro: rev_image_eqI)

lemma leaf_loop:
  assumes get_set: "\<And>g i. fld (setf i g) = i"
  shows "for_each (\<lambda>st. map snd (getitem (getitem (fld (fst st)) a) b))
           (\<lambda>t (g, acc). Inr (g, acc @ [t]))
           (setf (vivify2 (fld g) a b) g, acc) =
         Inr (setf (vivify2 (fld g) a b) g, acc @ leaf_values (fld g) a b)"
  by (simp add: leaf_values_def get_set
      collect_loop[where h = "\<lambda>g. map snd (getitem (getitem (fld g) a) b)"])

lemma branch_loop:
  assumes get_set: "\<And>g i. fld (setf i g) = i" and set_get: "\<And>g. setf (fld g) g = g"
  shows "for_each (\<lambda>st. map fst (getitem (fld (fst st)) a))
           (\<lambda>k st. for_each (\<lambda>st. map snd (getitem (getitem (fld (fst st)) a) k))
                      (\<lambda>t (g, acc). Inr (g, acc @ [t]))
                      (apfst (\<lambda>g. setf (vivify2 (fld g) a k) g) st))
           (setf (vivify (fld g) a) g, acc) =
         Inr (setf (vivify (fld g) a) g, acc @ branch_values (fld g) a)"
proof -
  let ?g1 = "setf (vivify (fld g) a) g"
  have viv: "setf (vivify2 (fld ?g1) a k) ?g1 = ?g1" if "k \<in> set (map fst (getitem (fld ?g1) a))" for k
  proof -
    have "vivify2 (fld ?g1) a k = fld ?g1"
      using that by (intro vivify2_present) (simp_all add: get_set vivify_key)
    then show ?thesis by (simp add: set_get)
  qed
  have "for_each (\<lambda>st. map fst (getitem (fld (fst st)) a))
           (\<lambda>k st. for_each (\<lambda>st. map snd (getitem (getitem (fld (fst st)) a) k))
                      (\<lambda>t (g, acc). Inr (g, acc @ [t]))
                      (apfst (\<lambda>g. setf (vivify2 (fld g) a k) g) st))
           (?g1, acc) =
        Inr (?g1, acc @ concat (map (\<lambda>k. map snd (getitem (getitem (fld ?g1) a) k))
                                  (map fst (getitem (fld ?g1) a))))"
    by (rule collect_loop2[where hk = "\<lambda>g. map fst (getitem (fld g) a)"
          and hv = "\<lambda>k g. map snd (getitem (getitem (fld g) a) k)"
          and viv = "\<lambda>k g. setf (vivify2 (fld g) a k) g"]) (simp_all add: viv)
  then show ?thesis
    by (simp add: get_set branch_values_def leaf_values_def[abs_def])
qed

lemma match_dispatch_plain:
  "match_dispatch fst apfst s p ob (\<lambda>t (g, acc). Inr (g, acc @ [t])) (g, acc) =
     Inr (fst (match_plain g s p ob), acc @ snd (match_plain g s p ob))"
proof (cases s; cases p; cases ob)
  fix s' p' ob'
  {
    assume "s = Some s'" "p = Some p'" "ob = Some ob'"
    then show ?thesis by (simp add: Graph_contains_def)
  next
    assume "s = Some s'" "p = Some p'" "ob = None"
    then show ?thesis
      using leaf_loop[where fld = spo and setf = "\<lambda>i g. g\<lparr>spo := i\<rparr>"] by simp
  next
    assume "s = Some s'" "p = None" "ob = Some ob'"
    then show ?thesis
      using leaf_loop[where fld = osp and setf = "\<lambda>i g. g\<lparr>osp := i\<rparr>"] by simp
  next
    assume "s = None" "p = Some p'" "ob = Some ob'"
    then show ?thesis
      using leaf_loop[where fld = pos and setf = "\<lambda>i g. g\<lparr>pos := i\<rparr>"] by simp
  next
    assume "s = None" "p = None" "ob = None"
    then show ?thesis
      by (simp add: collect_loop[where h = triples])
  next
    assume "s = Some s'" "p = None" "ob = None"
    then show ?thesis
      using branch_loop[where fld = spo and setf = "\<lambda>i g. g\<lparr>spo := i\<rparr>"] by simp
  next
    assume "s = None" "p = Some p'" "ob = None"
    then show ?thesis
      using branch_loop[where fld = pos and setf = "\<lambda>i g. g\<lparr>pos := i\<rparr>"] by simp
  next
    assume "s = None" "p = None" "ob = Some ob'"
    then show ?thesis
      using branch_loop[where fld = osp and setf = "\<lambda>i g. g\<lparr>osp := i\<rparr>"] by simp
  }
qed

lemma Graph_match_plain:
  "Graph_match g s p ob = Inr (match_plain g (bound s) (bound p) (bound ob))"
  by (simp add: Graph_match_def match_gen_def match_dispatch_plain)

lemma set_leaf_values:
  assumes "wf_index idx"
  shows "set (leaf_values idx a b) = {t. \<exists>c. lookup3 idx a b c = Some t}"
proof -
  have "distinct (map fst (getitem (getitem idx a) b))"
    using assms by (simp add: wf_index_def)
  then have "ran (map_of (getitem (getitem idx a) b)) = snd ` set (getitem (getitem idx a) b)"
    by (rule ran_distinct)
  then show ?thesis
    by (simp add: leaf_values_def lookup3_getitem ran_def)
qed

lemma lookup3_key: "lookup3 idx a b c = Some t \<Longrightarrow> b \<in> fst ` set (getitem idx a)"
  by (cases "map_of (getitem idx a) b")
     (auto simp: lookup3_getitem getitem_def[of "getitem idx a"] dest: map_of_SomeD intro: rev_image_eqI)

lemma set_branch_values:
  assumes "wf_index idx"
  shows "set (branch_values idx a) = {t. \<exists>b c. lookup3 idx a b c = Some t}"
proof -
  have "\<exists>k \<in> set (getitem idx a). \<exists>c'. lookup3 idx a (fst k) c' = Some t"
    if "lookup3 idx a b c = Some t" for b c t
  proof -
    from lookup3_key[OF that] obtain k where "k \<in> set (getitem idx a)" "fst k = b" by auto
    with that show ?thesis by auto
  qed
  then show ?thesis
    by (auto simp: branch_values_def set_leaf_values[OF assms])
qed

lemma distinct_leaf_values:
  assumes wf: "wf_index idx" and key: "\<And>a b c t. lookup3 idx a b c = Some t \<Longrightarrow> kc t = c"
  shows "distinct (leaf_values idx a b)"
proof -
  let ?l = "getitem (getitem idx a) b"
  have d: "distinct (map fst ?l)" using wf by (simp add: wf_index_def)
  have "kc t = c" if "(c, t) \<in> set ?l" for c t
    using key[of a b c t] map_of_is_SomeI[OF d that] by (simp add: lookup3_getitem)
  then have "inj_on snd (set ?l)"
    by (auto simp: inj_on_def) metis
  moreover have "distinct ?l" using d by (simp add: distinct_map)
  ultimately show ?thesis by (simp add: leaf_values_def distinct_map)
qed

lemma distinct_concat_keyed:
  assumes "distinct ks"
      and "\<And>k. k \<in> set ks \<Longrightarrow> distinct (f k) \<and> (\<forall>x \<in> set (f k). key x = k)"
  shows "distinct (concat (map f ks))"
  using assms
proof (induction ks)
  case Nil
  then show ?case by simp
next
  case (Cons k ks)
  then have "distinct (concat (map f ks))" by simp
  moreover have "distinct (f k)" using Cons.prems(2)[of k] by simp
  moreover have "set (f k) \<inter> set (concat (map f ks)) = {}"
  proof (rule ccontr)
    assume "set (f k) \<inter> set (concat (map f ks)) \<noteq> {}"
    then obtain x k' where "x \<in> set (f k)" "k' \<in> set ks" "x \<in> set (f k')" by auto
    with Cons.prems(2)[of k] Cons.prems(2)[of k'] have "k = k'" by auto
    with \<open>k' \<in> set ks\<close> Cons.prems(1) show False by simp
  qed
  ultimately show ?case by simp
qed

lemma distinct_branch_values:
  assumes wf: "wf_index idx"
      and key: "\<And>a b c t. lookup3 idx a b c = Some t \<Longrightarrow> kb t = b \<and> kc t = c"
  shows "distinct (branch_values idx a)"
  unfolding branch_values_def
proof (rule distinct_concat_keyed[where key = kb])
  show "distinct (map fst (getitem idx a))" using wf by (simp add: wf_index_def)
next
  fix k assume "k \<in> set (map fst (getitem idx a))"
  show "distinct (leaf_values idx a k) \<and> (\<forall>x\<in>set (leaf_values idx a k). kb x = k)"
    using distinct_leaf_values[OF wf, of kc a k] key
    by (auto simp: set_leaf_values[OF wf])
qed

lemma graph_inv_vivify:
  assumes "graph_inv g"
  shows "graph_inv (g\<lparr>spo := vivify (spo g) a\<rparr>)" "graph_inv (g\<lparr>pos := vivify (pos g) a\<rparr>)"
        "graph_inv (g\<lparr>osp := vivify (osp g) a\<rparr>)" "graph_inv (g\<lparr>spo := vivify2 (spo g) a b\<rparr>)"
        "graph_inv (g\<lparr>pos := vivify2 (pos g) a b\<rparr>)" "graph_inv (g\<lparr>osp := vivify2 (osp g) a b\<rparr>)"
  using assms by (simp_all add: graph_inv_def wf_index_vivify wf_index_vivify2)

lemma match_plain_state:
  "graph_inv g \<Longrightarrow> graph_inv (fst (match_plain g s p ob))"
  "triples (fst (match_plain g s p ob)) = triples g"
  "uri (fst (match_plain g s p ob)) = uri g"
  by (cases s; cases p; cases ob; simp add: graph_inv_vivify)+

lemma match_plain_set:
  assumes inv: "graph_inv g"
  shows "set (snd (match_plain g s p ob)) = {t \<in> set (triples g). matches s p ob t}"
proof -
  from inv have wf: "wf_index (spo g)" "wf_index (pos g)" "wf_index (osp g)"
    by (simp_all add: graph_inv_def)
  from inv have lk:
    "\<And>a b c t. lookup3 (spo g) a b c = Some t \<longleftrightarrow> t = Triple a b c \<and> t \<in> set (triples g)"
    "\<And>a b c t. lookup3 (pos g) a b c = Some t \<longleftrightarrow> t = Triple c a b \<and> t \<in> set (triples g)"
    "\<And>a b c t. lookup3 (osp g) a b c = Some t \<longleftrightarrow> t = Triple b c a \<and> t \<in> set (triples g)"
    by (simp_all add: graph_inv_def)
  show ?thesis
    by (cases s; cases p; cases ob)
       (auto simp: matches_def set_leaf_values wf set_branch_values lk,
        (metis triple.collapse)+)
qed

lemma match_plain_distinct:
  assumes inv: "graph_inv g"
  shows "distinct (snd (match_plain g s p ob))"
proof -
  from inv have wf: "wf_index (spo g)" "wf_index (pos g)" "wf_index (osp g)"
    and d: "distinct (triples g)"
    by (simp_all add: graph_inv_def)
  from inv have
    k1: "\<And>a b c t. lookup3 (spo g) a b c = Some t \<Longrightarrow> predicate t = b \<and> object t = c" and
    k2: "\<And>a b c t. lookup3 (pos g) a b c = Some t \<Longrightarrow> object t = b \<and> subject t = c" and
    k3: "\<And>a b c t. lookup3 (osp g) a b c = Some t \<Longrightarrow> subject t = b \<and> predicate t = c"
    by (auto simp: graph_inv_def)
  note dl = distinct_leaf_values[OF wf(1), of object] distinct_leaf_values[OF wf(2), of subject]
    distinct_leaf_values[OF wf(3), of predicate]
  note db = distinct_branch_values[OF wf(1), of predicate object]
    distinct_branch_values[OF wf(2), of object subject]
    distinct_branch_values[OF wf(3), of subject predicate]
  show ?thesis
    by (cases s; cases p; cases ob) (simp_all add: d dl db k1 k2 k3)
qed

lemma match_plain_mset:
  assumes inv: "graph_inv g"
  shows "mset (snd (match_plain g s p ob)) = mset (filter (matches s p ob) (triples g))"
proof -
  have d: "distinct (filter (matches s p ob) (triples g))"
    using inv by (simp add: graph_inv_def)
  have e: "set (snd (match_plain g s p ob)) = set (filter (matches s p ob) (triples g))"
    by (auto simp: match_plain_set[OF inv])
  show ?thesis
    using set_eq_iff_mset_eq_distinct[OF match_plain_distinct[OF inv] d] e by blast
qed

section \<open>Reachable graphs\<close>

lemma graph_inv_removeMatches:
  "graph_inv g \<Longrightarrow> graph_inv (result_state (Graph_removeMatches g s p ob))"
  unfolding Graph_removeMatches_def match_gen_def
  by (cases "bound s"; cases "bound p"; cases "bound ob")
     (auto intro!: for_each_inv graph_inv_remove graph_inv_vivify)

lemma graph_inv_addAll: "graph_inv g \<Longrightarrow> graph_inv (Graph_addAll g ts)"
  unfolding Graph_addAll_def by (induction ts arbitrary: g) (simp_all add: graph_inv_add)

lemma triples_add [simp]: "triples (Graph_add g t) = set_add t (triples g)"
  by (simp add: Graph_add_def)

lemma set_triples_addAll: "set (triples (Graph_addAll g ts)) = set (triples g) \<union> set ts"
  unfolding Graph_addAll_def by (induction ts arbitrary: g) auto

lemma distinct_triples_addAll: "distinct (triples g) \<Longrightarrow> distinct (triples (Graph_addAll g ts))"
  unfolding Graph_addAll_def by (induction ts arbitrary: g) (simp_all add: distinct_set_add)

lemma fold_frame:
  "fold (\<lambda>t f. f\<lparr>new_graph := Graph_add (new_graph f) t\<rparr>) ts f =
     f\<lparr>new_graph := Graph_addAll (new_graph f) ts\<rparr>"
  unfolding Graph_addAll_def by (induction ts arbitrary: f) simp_all

lemma merge_loop:
  "for_each (\<lambda>f. triples (sel f)) (\<lambda>t f. Inr (f\<lparr>new_graph := Graph_add (new_graph f) t\<rparr>)) f =
     Inr (f\<lparr>new_graph := Graph_addAll (new_graph f) (triples (sel f))\<rparr>)"
  if "\<And>f n. sel (f\<lparr>new_graph := n\<rparr>) = sel f"
proof -
  have "for_each (\<lambda>f. triples (sel f)) (\<lambda>t f. Inr (f\<lparr>new_graph := Graph_add (new_graph f) t\<rparr>)) f =
     Inr (fold (\<lambda>t f. f\<lparr>new_graph := Graph_add (new_graph f) t\<rparr>) (triples (sel f)) f)"
    by (rule for_each_pure[where I = "\<lambda>f'. sel f' = sel f"]) (simp_all add: that)
  then show ?thesis by (simp add: fold_frame)
qed

lemma Graph_merge_eq:
  "Graph_merge g1 g2 =
     Inr \<lparr>self = g1, other = g2,
          new_graph = Graph_addAll (Graph_addAll (Graph_init PyNone) (triples g2)) (triples g1)\<rparr>"
  by (simp add: Graph_merge_def merge_loop[where sel = other] merge_loop[where sel = self])

lemma reachable_inv: "reachable g \<Longrightarrow> graph_inv g"
proof (induction rule: reachable.induct)
  case (match g s p ob)
  then show ?case by (simp add: Graph_match_plain match_plain_state)
next
  case (merge g1 g2)
  have "graph_inv (Graph_addAll (Graph_addAll (Graph_init PyNone) (triples g2)) (triples g1))"
    by (intro graph_inv_addAll graph_inv_init)
  then show ?case by (simp add: Graph_merge_eq del: Graph_init.simps)
qed (simp_all add: graph_inv_init graph_inv_add graph_inv_remove graph_inv_removeMatches
      graph_inv_addAll)

lemma Graph_match_correct:
  assumes "reachable g"
  shows "\<exists>g' ts. Graph_match g s p ob = Inr (g', ts) \<and> triples g' = triples g \<and>
           mset ts = mset (filter (matches (bound s) (bound p) (bound ob)) (triples g))"
  using match_plain_mset[OF reachable_inv[OF assms]]
  by (simp add: Graph_match_plain match_plain_state prod_eq_iff)

lemma lookup3_key1: "lookup3 idx a b c = Some t \<Longrightarrow> a \<in> fst ` set idx"
  by (cases "map_of idx a") (auto simp: lookup3_def dest: map_of_SomeD intro: rev_image_eqI)

lemma setitem3_present:
  assumes "lookup3 idx a b c = Some t"
  shows "setitem3 idx a b c t = idx"
proof -
  have a: "a \<in> fst ` set idx" and b: "b \<in> fst ` set (getitem idx a)"
    using assms by (rule lookup3_key1, rule lookup3_key)
  have "AList.update c t (getitem (getitem idx a) b) = getitem (getitem idx a) b"
    using assms by (simp add: lookup3_getitem update_triv)
  then show ?thesis
    by (simp add: setitem3_def vivify_present a b update_getitem)
qed

lemma Graph_add_present:
  assumes "graph_inv g" "t \<in> set (triples g)"
  shows "Graph_add g t = g"
proof -
  obtain s p ob where t: "t = Triple s p ob" by (cases t)
  from assms t have "lookup3 (spo g) s p ob = Some t" "lookup3 (pos g) p ob s = Some t"
    "lookup3 (osp g) ob s p = Some t"
    by (auto simp: graph_inv_def)
  then show ?thesis
    using assms(2) t by (simp add: Graph_add_def setitem3_present set_add_def)
qed

section \<open>removeMatches on the live generator\<close>

text \<open>
  Removing a triple that a loop of \<open>match\<close> has just yielded shrinks the container the
  loop is iterating, and the next step of the iterator raises. So \<open>removeMatches\<close>
  raises \<open>RuntimeError\<close>, having removed one matching triple, whenever a pattern that is
  not fully bound has a match; this does not depend on the order of iteration. Only the
  fully bound pattern, which iterates nothing, removes what it matches.
\<close>

lemma length_filter_removeAll:
  "distinct ts \<Longrightarrow> t \<in> set ts \<Longrightarrow> P t \<Longrightarrow>
   Suc (length (filter P (removeAll t ts))) = length (filter P ts)"
  by (induction ts) auto

lemma match_plain_length:
  assumes "graph_inv g"
  shows "length (snd (match_plain g s p ob)) = length (filter (matches s p ob) (triples g))"
proof -
  have "size (mset (snd (match_plain g s p ob))) =
        size (mset (filter (matches s p ob) (triples g)))"
    by (simp only: match_plain_mset[OF assms])
  then show ?thesis by (simp only: size_mset)
qed

lemma remove_shrinks:
  assumes inv: "graph_inv g" and t: "t \<in> set (snd (match_plain g s p ob))"
  shows "\<exists>g'. Graph_remove g t = Inr g' \<and> graph_inv g' \<and> triples g' = removeAll t (triples g) \<and>
           matches s p ob t \<and> t \<in> set (triples g) \<and>
           Suc (length (snd (match_plain g' s p ob))) = length (snd (match_plain g s p ob))"
proof -
  from t have mem: "t \<in> set (triples g)" and m: "matches s p ob t"
    by (simp_all add: match_plain_set[OF inv])
  from Graph_remove_present[OF inv mem] obtain g' where
    g': "Graph_remove g t = Inr g'" "graph_inv g'" "triples g' = removeAll t (triples g)" by blast
  have "distinct (triples g)" using inv by (simp add: graph_inv_def)
  then have "Suc (length (filter (matches s p ob) (triples g'))) =
             length (filter (matches s p ob) (triples g))"
    using mem m by (simp add: g'(3) length_filter_removeAll)
  then show ?thesis
    using g' mem m by (simp add: match_plain_length inv)
qed

lemma for_each_empty: "items st = [] \<Longrightarrow> for_each items body st = Inr st"
  unfolding for_each_def by (subst for_iter.simps) simp

lemma for_each_raises:
  assumes "items st \<noteq> []" "body (hd (items st)) st = Inr st'"
    "length (items st') \<noteq> length (items st)"
  shows "for_each items body st = Inl (RuntimeError, st')"
proof -
  have "for_iter items (length (items st)) (Suc 0) body st' = Inl (RuntimeError, st')"
    using assms(3) by (subst for_iter.simps) simp
  then show ?thesis
    unfolding for_each_def using assms(1,2)
    by (subst for_iter.simps) (simp add: hd_conv_nth)
qed

lemma single_loop_remove:
  assumes inv: "graph_inv g1" and items: "\<And>g. items g = snd (match_plain g s p ob)"
      and ne: "items g1 \<noteq> []"
  shows "\<exists>t g2. t \<in> set (triples g1) \<and> matches s p ob t \<and>
           triples g2 = removeAll t (triples g1) \<and>
           for_each items (\<lambda>t g. Graph_remove g t) g1 = Inl (RuntimeError, g2)"
proof -
  let ?t = "hd (items g1)"
  have "?t \<in> set (snd (match_plain g1 s p ob))" using ne by (simp add: items[symmetric])
  from remove_shrinks[OF inv this] obtain g2 where
    g2: "Graph_remove g1 ?t = Inr g2" "triples g2 = removeAll ?t (triples g1)"
      "matches s p ob ?t" "?t \<in> set (triples g1)"
      "Suc (length (items g2)) = length (items g1)"
    by (auto simp: items)
  have "for_each items (\<lambda>t g. Graph_remove g t) g1 = Inl (RuntimeError, g2)"
    by (rule for_each_raises[where items = items and st = g1]) (use ne g2 in simp_all)
  with g2 show ?thesis by blast
qed

lemma outer_loop_remove:
  assumes inv: "graph_inv g1" and ks: "keys g1 = ks"
      and viv: "\<And>k. k \<in> set ks \<Longrightarrow> viv k g1 = g1"
      and items: "\<And>k g. items k g = snd (match_plain g (ps k) (pp k) (po k))"
  shows "i \<le> length ks \<Longrightarrow>
         (\<forall>k \<in> set (drop i ks). items k g1 = []) \<and>
         for_iter keys (length ks) i
           (\<lambda>k st. for_each (items k) (\<lambda>t g. Graph_remove g t) (viv k st)) g1 = Inr g1 \<or>
         (\<exists>k \<in> set (drop i ks). \<exists>t g2. t \<in> set (triples g1) \<and> matches (ps k) (pp k) (po k) t \<and>
            triples g2 = removeAll t (triples g1) \<and>
            for_iter keys (length ks) i
              (\<lambda>k st. for_each (items k) (\<lambda>t g. Graph_remove g t) (viv k st)) g1 =
            Inl (RuntimeError, g2))"
proof (induction "length ks - i" arbitrary: i)
  case 0
  then show ?case by (subst for_iter.simps) (simp add: ks)
next
  case (Suc n)
  then have lt: "i < length ks" by simp
  let ?k = "ks ! i"
  have k: "?k \<in> set ks" using lt by simp
  have d: "drop i ks = ?k # drop (Suc i) ks" using lt by (simp add: Cons_nth_drop_Suc)
  show ?case
  proof (cases "items ?k g1 = []")
    case True
    have b: "for_each (items ?k) (\<lambda>t g. Graph_remove g t) (viv ?k g1) = Inr g1"
      by (simp add: viv[OF k] for_each_empty True)
    have n: "n = length ks - Suc i" using Suc.hyps(2) by simp
    have step: "for_iter keys (length ks) i
           (\<lambda>k st. for_each (items k) (\<lambda>t g. Graph_remove g t) (viv k st)) g1 =
          for_iter keys (length ks) (Suc i)
           (\<lambda>k st. for_each (items k) (\<lambda>t g. Graph_remove g t) (viv k st)) g1"
      by (subst for_iter.simps) (simp add: ks lt b)
    from Suc.hyps(1)[OF n] lt show ?thesis
      unfolding step d using True by auto
  next
    case False
    from single_loop_remove[OF inv items False] obtain t g2 where
      r: "t \<in> set (triples g1)" "matches (ps ?k) (pp ?k) (po ?k) t"
        "triples g2 = removeAll t (triples g1)"
        "for_each (items ?k) (\<lambda>t g. Graph_remove g t) g1 = Inl (RuntimeError, g2)"
      by blast
    have "for_iter keys (length ks) i
           (\<lambda>k st. for_each (items k) (\<lambda>t g. Graph_remove g t) (viv k st)) g1 =
          Inl (RuntimeError, g2)"
      by (subst for_iter.simps) (simp add: ks lt viv[OF k] r(4))
    with r show ?thesis unfolding d by auto
  qed
qed


lemma branch_remove:
  assumes get_set: "\<And>g i. fld (setf i g) = i" and set_get: "\<And>g. setf (fld g) g = g"
      and inv: "graph_inv g1" and a: "a \<in> fst ` set (fld g1)"
      and items: "\<And>k g. map snd (getitem (getitem (fld g) a) k) =
                         snd (match_plain g (ps k) (pp k) (po k))"
      and ne: "branch_values (fld g1) a \<noteq> []"
  shows "\<exists>k t g2. t \<in> set (triples g1) \<and> matches (ps k) (pp k) (po k) t \<and>
           triples g2 = removeAll t (triples g1) \<and>
           for_each (\<lambda>st. map fst (getitem (fld st) a))
             (\<lambda>k st. for_each (\<lambda>st. map snd (getitem (getitem (fld st) a) k))
                        (\<lambda>t g. Graph_remove g t) (setf (vivify2 (fld st) a k) st)) g1 =
           Inl (RuntimeError, g2)"
proof -
  let ?ks = "map fst (getitem (fld g1) a)"
  have viv: "setf (vivify2 (fld g1) a k) g1 = g1" if "k \<in> set ?ks" for k
  proof -
    have "vivify2 (fld g1) a k = fld g1"
      using that a by (intro vivify2_present) simp_all
    then show ?thesis by (simp add: set_get)
  qed
  note outer = outer_loop_remove[where keys = "\<lambda>st. map fst (getitem (fld st) a)" and ks = ?ks
      and viv = "\<lambda>k g. setf (vivify2 (fld g) a k) g"
      and items = "\<lambda>k g. map snd (getitem (getitem (fld g) a) k)"
      and ps = ps and pp = pp and po = po and i = 0, OF inv refl viv items]
  have "\<not> (\<forall>k \<in> set ?ks. map snd (getitem (getitem (fld g1) a) k) = [])"
    using ne by (auto simp: branch_values_def leaf_values_def)
  with outer show ?thesis
    unfolding for_each_def by auto
qed

lemma Graph_removeMatches_raises:
  assumes inv: "graph_inv g"
      and nb: "bound s = None \<or> bound p = None \<or> bound ob = None"
      and ex: "\<exists>t \<in> set (triples g). matches (bound s) (bound p) (bound ob) t"
  shows "\<exists>t g2. t \<in> set (triples g) \<and> matches (bound s) (bound p) (bound ob) t \<and>
           triples g2 = removeAll t (triples g) \<and>
           Graph_removeMatches g s p ob = Inl (RuntimeError, g2)"
proof -
  let ?g1 = "fst (match_plain g (bound s) (bound p) (bound ob))"
  have inv1: "graph_inv ?g1" and tr: "triples ?g1 = triples g"
    using inv by (simp_all add: match_plain_state)
  have ne: "snd (match_plain g (bound s) (bound p) (bound ob)) \<noteq> []"
    using ex match_plain_set[OF inv, of "bound s" "bound p" "bound ob"] by auto
  show ?thesis
  proof (cases "bound s"; cases "bound p"; cases "bound ob")
    fix s' p' ob'
    {
      assume c: "bound s = Some s'" "bound p = Some p'" "bound ob = Some ob'"
      with nb show ?thesis by simp
    next
      assume c: "bound s = None" "bound p = None" "bound ob = None"
      from single_loop_remove[where items = triples and s = None and p = None and ob = None, OF inv]
        ne c
      show ?thesis by (simp add: Graph_removeMatches_def match_gen_def)
    next
      assume c: "bound s = Some s'" "bound p = Some p'" "bound ob = None"
      from single_loop_remove[where items = "\<lambda>g. map snd (getitem (getitem (spo g) s') p')"
          and s = "Some s'" and p = "Some p'" and ob = None, OF inv1[unfolded c]]
        ne tr c
      show ?thesis by (simp add: Graph_removeMatches_def match_gen_def leaf_values_def)
    next
      assume c: "bound s = Some s'" "bound p = None" "bound ob = Some ob'"
      from single_loop_remove[where items = "\<lambda>g. map snd (getitem (getitem (osp g) ob') s')"
          and s = "Some s'" and p = None and ob = "Some ob'", OF inv1[unfolded c]]
        ne tr c
      show ?thesis by (simp add: Graph_removeMatches_def match_gen_def leaf_values_def)
    next
      assume c: "bound s = None" "bound p = Some p'" "bound ob = Some ob'"
      from single_loop_remove[where items = "\<lambda>g. map snd (getitem (getitem (pos g) p') ob')"
          and s = None and p = "Some p'" and ob = "Some ob'", OF inv1[unfolded c]]
        ne tr c
      show ?thesis by (simp add: Graph_removeMatches_def match_gen_def leaf_values_def)
    next
      assume c: "bound s = Some s'" "bound p = None" "bound ob = None"
      from branch_remove[where fld = spo and setf = "\<lambda>i g. g\<lparr>spo := i\<rparr>" and a = s'
          and ps = "\<lambda>k. Some s'" and pp = Some and po = "\<lambda>k. None", OF _ _ inv1[unfolded c]]
        ne tr c
      show ?thesis
        by (auto simp: Graph_removeMatches_def match_gen_def leaf_values_def vivify_key
            branch_values_def matches_def)
    next
      assume c: "bound s = None" "bound p = Some p'" "bound ob = None"
      from branch_remove[where fld = pos and setf = "\<lambda>i g. g\<lparr>pos := i\<rparr>" and a = p'
          and ps = "\<lambda>k. None" and pp = "\<lambda>k. Some p'" and po = Some, OF _ _ inv1[unfolded c]]
        ne tr c
      show ?thesis
        by (auto simp: Graph_removeMatches_def match_gen_def leaf_values_def vivify_key
            branch_values_def matches_def)
    next
      assume c: "bound s = None" "bound p = None" "bound ob = Some ob'"
      from branch_remove[where fld = osp and setf = "\<lambda>i g. g\<lparr>osp := i\<rparr>" and a = ob'
          and ps = Some and pp = "\<lambda>k. None" and po = "\<lambda>k. Some ob'", OF _ _ inv1[unfolded c]]
        ne tr c
      show ?thesis
        by (auto simp: Graph_removeMatches_def match_gen_def leaf_values_def vivify_key
            branch_values_def matches_def)
    }
  qed
qed


lemma Graph_removeMatches_fully_bound:
  assumes "bound s = Some s'" "bound p = Some p'" "bound ob = Some ob'"
  shows "Graph_removeMatches g s p ob =
           (if Graph_contains g (Triple s' p' ob') then Graph_remove g (Triple s' p' ob')
            else Inr g)"
  using assms by (simp add: Graph_removeMatches_def match_gen_def)

section \<open>Names of graphs\<close>

text \<open>
  The only term that is false is the identifier of the empty string, and
  \<open>add_graph\<close> raises exactly when no true name is given and the graph's own name is
  false.
\<close>

lemma Dataset_add_graph_error:
  "result_error (Dataset_add_graph w a named) =
     (if bound named = None \<and> \<not> truthy (uri (objs w a)) then Some ValueError else None)"
  by (auto simp: Dataset_add_graph_def bound_def result_error_def Let_def split: option.splits)

lemma truthy_iff: "truthy x \<longleftrightarrow> x \<noteq> NamedNode []"
  by (cases x) auto

section \<open>Evaluation of the examples\<close>

lemmas ex_defs = ex_s_def ex_p_def ex_v_def ex_w_def ex_t_def ex_t2_def ex_g_def ex_g2_def
  ex_name_def ex_q_def ex_q2_def ex_ds_def

lemmas eval_defs = Graph_add_def setitem3_def vivify_def vivify2_def getitem_def set_add_def
  Graph_remove_def set_remove_def delitem3_def Graph_contains_def Graph_len_def
  for_each_def for_iter.simps match_gen_def bound_def
  Dataset_init_def new_Graph_def graphs_getitem_def heap_upd_def Dataset_add_def
  Dataset_remove_def Dataset_add_graph_def Dataset_match_gen_def Dataset_match_def
  Dataset_removeMatches_def q_as_t_def t_as_q_def result_error_def Let_def

lemma ex_g_val: "ex_g = \<lparr>uri = NamedNode ''None'', triples = [ex_t],
   spo = [(ex_s, [(ex_p, [(ex_v, ex_t)])])], pos = [(ex_p, [(ex_v, [(ex_s, ex_t)])])],
   osp = [(ex_v, [(ex_s, [(ex_p, ex_t)])])]\<rparr>"
  by (simp add: ex_g_def ex_t_def Graph_add_def setitem3_def vivify_def getitem_def set_add_def)

section \<open>The claims\<close>

lemma reachable_ex_g: "reachable ex_g"
  unfolding ex_g_def by (intro reachable.add reachable.init)

lemma reachable_ex_g2: "reachable ex_g2"
  unfolding ex_g2_def by (intro reachable.add reachable_ex_g)

text \<open>
  C1. \<open>Graph.match\<close> yields exactly the triples that pass brute-force filtering by
  equality on the bound fields. The code takes an argument as bound when it is true,
  not when it is given (lemma \<open>Graph_match_correct\<close> is the claim for that reading).
  The docstring of \<open>match\<close> exempts only a null argument, and the identifier with the
  empty string is not null: on the graph holding the one triple \<open>ex_t\<close>, whose
  subject is not the empty identifier, \<open>match(subject=NamedNode(''))\<close> yields \<open>ex_t\<close>,
  while filtering by equality on the subject yields nothing.
\<close>

theorem match_empty_identifier_subject_yields_all:
  "Graph_match ex_g (Some (NamedNode [])) None None = Inr (ex_g, [ex_t]) \<and>
   filter (matches (Some (NamedNode [])) None None) (triples ex_g) = []"
  by (simp add: Graph_match_plain bound_def matches_def ex_g_val) (simp add: ex_defs)

text \<open>
  C2. In every graph reachable by the public operations of \<open>Graph\<close> (add, remove, match,
  removeMatches, addAll, merge), a triple is in the primary set if and only if each of
  the three indices stores that triple at the path of its own subject, predicate and
  object.
\<close>

theorem index_set_consistency:
  assumes "reachable g"
  shows "Graph_contains g t \<longleftrightarrow>
           lookup3 (spo g) (subject t) (predicate t) (object t) = Some t \<and>
           lookup3 (pos g) (predicate t) (object t) (subject t) = Some t \<and>
           lookup3 (osp g) (object t) (subject t) (predicate t) = Some t"
  using reachable_inv[OF assms] by (cases t) (auto simp: graph_inv_def Graph_contains_def)

theorem index_set_consistency_witness:
  "reachable ex_g2 \<and> Graph_contains ex_g2 ex_t2 \<and>
   lookup3 (spo ex_g2) ex_s ex_p ex_w = Some ex_t2 \<and>
   lookup3 (pos ex_g2) ex_p ex_w ex_s = Some ex_t2 \<and>
   lookup3 (osp ex_g2) ex_w ex_s ex_p = Some ex_t2"
proof -
  have "Graph_contains ex_g2 ex_t2"
    by (simp add: ex_g2_def Graph_contains_def)
  with index_set_consistency[OF reachable_ex_g2, of ex_t2] reachable_ex_g2 show ?thesis
    by (simp add: ex_t2_def)
qed

text \<open>
  C3. \<open>removeMatches\<close> completes without error and leaves exactly the triples that did
  not match, for \<open>Graph\<close> and for \<open>Dataset\<close>. The code removes inside the loop that
  consumes the live generator. On the graph with the two triples \<open>ex_t\<close> and \<open>ex_t2\<close>
  of one subject, \<open>removeMatches(ex_s, None, None)\<close> removes one of them, and the
  next step of the dictionary iterator raises \<open>RuntimeError\<close> with the other triple
  still in the graph. The dataset holding the one quad \<open>ex_q\<close> raises in the same way
  on \<open>removeMatches()\<close>. Lemma \<open>Graph_removeMatches_raises\<close> shows the same for every
  graph and every pattern that is not fully bound and has a match.
\<close>

theorem removeMatches_raises_during_iteration:
  "Graph_len ex_g2 = 2 \<and>
   result_error (Graph_removeMatches ex_g2 (Some ex_s) None None) = Some RuntimeError \<and>
   Graph_len (result_state (Graph_removeMatches ex_g2 (Some ex_s) None None)) = 1 \<and>
   result_error (Dataset_removeMatches ex_ds None None None None) = Some RuntimeError"
  by (simp add: ex_defs Graph_removeMatches_def eval_defs)

text \<open>
  C4, as stated, fails on the empty dataset: \<open>remove\<close> of a quad raises \<open>KeyError\<close> from
  \<open>Graph.remove\<close>, after the read of \<open>self._graphs[quad.graph]\<close> has registered a new
  empty graph under the unknown name.
\<close>

theorem Dataset_remove_unknown_name_registers_graph:
  "graphs Dataset_init = [] \<and>
   result_error (Dataset_remove Dataset_init ex_q) = Some KeyError \<and>
   graphs (result_state (Dataset_remove Dataset_init ex_q)) = [(ex_name, 0)]"
  by (simp add: ex_defs eval_defs)

text \<open>
  C4, amended. \<open>Dataset.remove(quad)\<close> fails with the \<open>KeyError\<close> of \<open>Graph.remove\<close> both
  when no graph is registered under \<open>quad.graph\<close> and when the graph is registered but
  the narrowed triple is not a member of it; in the second case the dataset's mapping
  and all graphs are unchanged.
\<close>

theorem Dataset_remove_not_found:
  "(map_of (graphs w) (qgraph q) = None \<longrightarrow> result_error (Dataset_remove w q) = Some KeyError) \<and>
   (\<forall>a. map_of (graphs w) (qgraph q) = Some a \<and> \<not> Graph_contains (objs w a) (q_as_t q) \<longrightarrow>
        Dataset_remove w q = Inl (KeyError, w))"
  by (auto simp: Dataset_remove_def graphs_getitem_def new_Graph_def result_error_def heap_upd_def
      Graph_remove_absent Graph_contains_def)

theorem Dataset_remove_not_found_witness:
  "map_of (graphs Dataset_init) (qgraph ex_q) = None \<and>
   result_error (Dataset_remove Dataset_init ex_q) = Some KeyError \<and>
   map_of (graphs ex_ds) (qgraph ex_q2) = Some 0 \<and>
   \<not> Graph_contains (objs ex_ds 0) (q_as_t ex_q2) \<and>
   Dataset_remove ex_ds ex_q2 = Inl (KeyError, ex_ds)"
proof -
  have a: "map_of (graphs Dataset_init) (qgraph ex_q) = None"
    by (simp add: Dataset_init_def)
  have b: "map_of (graphs ex_ds) (qgraph ex_q2) = Some 0 \<and>
           \<not> Graph_contains (objs ex_ds 0) (q_as_t ex_q2)"
    by (simp add: ex_defs eval_defs)
  from a b Dataset_remove_not_found[of Dataset_init ex_q] Dataset_remove_not_found[of ex_ds ex_q2]
  show ?thesis by blast
qed

text \<open>
  C5. For a triple \<open>t\<close> that is not in the graph, \<open>g.remove(t)\<close> raises \<open>KeyError\<close> and
  leaves the primary set and the three indices as they were; and in a reachable graph,
  \<open>g.add(t)\<close> followed by \<open>g.remove(t)\<close> returns, with \<open>len(g)\<close> and \<open>t not in g\<close> as
  before the add (the triple is a member when \<open>remove\<close> is called).
\<close>

theorem remove_absent_fails_and_undoes_add:
  assumes "\<not> Graph_contains g t"
  shows "Graph_remove g t = Inl (KeyError, g) \<and>
         (reachable g \<longrightarrow>
            (\<exists>g'. Graph_remove (Graph_add g t) t = Inr g' \<and> Graph_len g' = Graph_len g \<and>
                  \<not> Graph_contains g' t \<and> triples g' = triples g))"
proof (intro conjI impI)
  show "Graph_remove g t = Inl (KeyError, g)"
    using assms by (simp add: Graph_remove_absent Graph_contains_def)
next
  assume "reachable g"
  then have "graph_inv (Graph_add g t)" by (simp add: reachable_inv graph_inv_add)
  moreover have "t \<in> set (triples (Graph_add g t))" by simp
  ultimately obtain g' where g': "Graph_remove (Graph_add g t) t = Inr g'"
    "triples g' = removeAll t (triples (Graph_add g t))"
    using Graph_remove_present by blast
  have "triples g' = triples g"
    using assms by (simp add: g'(2) set_add_def Graph_contains_def)
  with g'(1) assms show "\<exists>g'. Graph_remove (Graph_add g t) t = Inr g' \<and> Graph_len g' = Graph_len g \<and>
                  \<not> Graph_contains g' t \<and> triples g' = triples g"
    by (simp add: Graph_len_def Graph_contains_def)
qed

theorem remove_absent_fails_and_undoes_add_witness:
  "\<not> Graph_contains ex_g ex_t2 \<and> reachable ex_g \<and>
   Graph_remove ex_g ex_t2 = Inl (KeyError, ex_g) \<and>
   (\<exists>g'. Graph_remove (Graph_add ex_g ex_t2) ex_t2 = Inr g' \<and> Graph_len g' = 1 \<and>
         \<not> Graph_contains g' ex_t2 \<and> triples g' = [ex_t])"
proof -
  have a: "\<not> Graph_contains ex_g ex_t2"
    by (simp add: ex_g_val Graph_contains_def) (simp add: ex_defs)
  have "Graph_len ex_g = 1" "triples ex_g = [ex_t]" by (simp_all add: ex_g_val Graph_len_def)
  with remove_absent_fails_and_undoes_add[OF a] a reachable_ex_g show ?thesis by simp
qed

text \<open>
  C6. In every reachable dataset each graph's own name equals its key in the mapping.
  \<open>Dataset.add\<close> sets the name of the graph it reads from the mapping; \<open>Dataset.match\<close>
  does not: \<open>list(ds.match(graph=ex_name))\<close> on the empty dataset returns, and leaves
  under \<open>ex_name\<close> a new graph whose own name is \<open>None\<close>.
\<close>

theorem Dataset_match_registers_misnamed_graph:
  "result_error (Dataset_match Dataset_init None None None (Some ex_name)) = None \<and>
   graphs (fst (result_state (Dataset_match Dataset_init None None None (Some ex_name)))) =
     [(ex_name, 0)] \<and>
   uri (objs (fst (result_state (Dataset_match Dataset_init None None None (Some ex_name)))) 0) =
     NamedNode ''None'' \<and>
   ex_name \<noteq> NamedNode ''None''"
  by (simp add: ex_defs eval_defs)

text \<open>
  C7. \<open>add_graph\<close> fails when no name is supplied and the graph has none of its own, for
  example a graph constructed without a URI. \<open>Graph()\<close> turns the missing URI into the
  identifier \<open>None\<close>, which is true, so \<open>add_graph(Graph())\<close> returns and registers the
  graph under that identifier.
\<close>

theorem add_graph_accepts_graph_without_uri:
  "result_error (Dataset_add_graph (fst (new_Graph Dataset_init PyNone))
     (snd (new_Graph Dataset_init PyNone)) None) = None \<and>
   graphs (result_state (Dataset_add_graph (fst (new_Graph Dataset_init PyNone))
     (snd (new_Graph Dataset_init PyNone)) None)) = [(NamedNode ''None'', 0)]"
  by (simp add: ex_defs eval_defs)

text \<open>
  C8. \<open>Graph.add\<close> is idempotent: in a reachable graph, adding a triple a second time
  changes nothing, and adding a triple that is already present leaves the primary
  set, the three indices and \<open>len(g)\<close> as they are.
\<close>

theorem add_idempotent:
  assumes "reachable g"
  shows "Graph_add (Graph_add g t) t = Graph_add g t \<and>
         Graph_len (Graph_add (Graph_add g t) t) = Graph_len (Graph_add g t) \<and>
         (Graph_contains g t \<longrightarrow> Graph_add g t = g \<and> Graph_len (Graph_add g t) = Graph_len g)"
proof -
  have inv: "graph_inv g" using assms by (rule reachable_inv)
  have "Graph_add (Graph_add g t) t = Graph_add g t"
    by (rule Graph_add_present) (simp_all add: graph_inv_add inv)
  moreover have "Graph_add g t = g" if "Graph_contains g t"
    using that inv by (simp add: Graph_add_present Graph_contains_def)
  ultimately show ?thesis by simp
qed

theorem add_idempotent_witness:
  "reachable ex_g \<and> Graph_contains ex_g ex_t \<and> Graph_add ex_g ex_t = ex_g \<and>
   Graph_len (Graph_add ex_g ex_t) = 1 \<and> Graph_add (Graph_add ex_g ex_t2) ex_t2 = ex_g2"
proof -
  have "Graph_contains ex_g ex_t" "Graph_len ex_g = 1"
    by (simp_all add: ex_g_val Graph_contains_def Graph_len_def)
  with add_idempotent[OF reachable_ex_g, of ex_t] add_idempotent[OF reachable_ex_g, of ex_t2]
    reachable_ex_g
  show ?thesis by (simp add: ex_g2_def)
qed

text \<open>
  C9. \<open>g1.merge(g2)\<close> returns a new graph whose primary set is the union of the triples
  of \<open>g1\<close> and \<open>g2\<close>, equal triples counted once, and leaves \<open>g1\<close> and \<open>g2\<close> as they
  were.
\<close>

theorem merge_is_union:
  "\<exists>f. Graph_merge g1 g2 = Inr f \<and> self f = g1 \<and> other f = g2 \<and>
       set (triples (new_graph f)) = set (triples g1) \<union> set (triples g2) \<and>
       Graph_len (new_graph f) = card (set (triples g1) \<union> set (triples g2))"
proof -
  let ?n = "Graph_addAll (Graph_addAll (Graph_init PyNone) (triples g2)) (triples g1)"
  have s: "set (triples ?n) = set (triples g1) \<union> set (triples g2)"
    by (auto simp: set_triples_addAll)
  have "distinct (triples ?n)"
    by (intro distinct_triples_addAll) simp
  then have "Graph_len ?n = card (set (triples ?n))"
    by (simp add: Graph_len_def distinct_card)
  with s show ?thesis by (simp add: Graph_merge_eq del: Graph_init.simps)
qed

theorem merge_is_union_witness:
  "\<exists>f. Graph_merge ex_g ex_g2 = Inr f \<and> self f = ex_g \<and> other f = ex_g2 \<and>
       set (triples (new_graph f)) = {ex_t, ex_t2} \<and> Graph_len (new_graph f) = 2"
proof -
  have "set (triples ex_g) \<union> set (triples ex_g2) = {ex_t, ex_t2}"
    by (auto simp: ex_g2_def ex_g_val)
  moreover have "ex_t \<noteq> ex_t2" by (simp add: ex_defs)
  ultimately show ?thesis using merge_is_union[of ex_g ex_g2] by (simp add: numeral_2_eq_2)
qed

text \<open>
  C10. \<open>Graph.match\<close> tests the truth value of its arguments: a subject, predicate or
  object that is given but false, such as the identifier of the empty string, is
  treated exactly as if it were not given. In a reachable graph the result is then the
  triples that pass the filter on the other two arguments, whatever their value in that
  field, and all triples when the other two are not given.
\<close>

theorem match_false_argument_is_unbound:
  assumes "\<not> truthy x"
  shows "Graph_match g (Some x) p ob = Graph_match g None p ob \<and>
         Graph_match g s (Some x) ob = Graph_match g s None ob \<and>
         Graph_match g s p (Some x) = Graph_match g s p None \<and>
         (reachable g \<longrightarrow>
            (\<exists>g' ts. Graph_match g (Some x) p ob = Inr (g', ts) \<and>
               mset ts = mset (filter (matches None (bound p) (bound ob)) (triples g))) \<and>
            (\<exists>g' ts. Graph_match g s (Some x) ob = Inr (g', ts) \<and>
               mset ts = mset (filter (matches (bound s) None (bound ob)) (triples g))) \<and>
            (\<exists>g' ts. Graph_match g s p (Some x) = Inr (g', ts) \<and>
               mset ts = mset (filter (matches (bound s) (bound p) None) (triples g))) \<and>
            (\<exists>g' ts. Graph_match g (Some x) None None = Inr (g', ts) \<and>
               mset ts = mset (triples g)))"
proof -
  have b: "bound (Some x) = None" using assms by (simp add: bound_def)
  have n: "bound None = None" by (simp add: bound_def)
  have m: "filter (matches None None None) ts = ts" for ts by (simp add: matches_def)
  show ?thesis
    using Graph_match_correct[of g "Some x" p ob] Graph_match_correct[of g s "Some x" ob]
      Graph_match_correct[of g s p "Some x"] Graph_match_correct[of g "Some x" None None]
    by (auto simp: b n m Graph_match_def match_gen_def)
qed

theorem match_false_argument_is_unbound_witness:
  "\<not> truthy (NamedNode []) \<and> reachable ex_g2 \<and>
   Graph_match ex_g2 (Some (NamedNode [])) None None = Graph_match ex_g2 None None None \<and>
   (\<exists>g' ts. Graph_match ex_g2 (Some (NamedNode [])) None None = Inr (g', ts) \<and>
       mset ts = {#ex_t, ex_t2#})"
proof -
  have nt: "\<not> truthy (NamedNode [])" by simp
  have m: "mset (triples ex_g2) = {#ex_t, ex_t2#}"
    by (simp add: ex_g2_def ex_g_val set_add_def) (simp add: ex_defs)
  note th = match_false_argument_is_unbound[OF nt, where g = ex_g2 and s = None and p = None
      and ob = None]
  from th reachable_ex_g2
  have e: "Graph_match ex_g2 (Some (NamedNode [])) None None = Graph_match ex_g2 None None None"
    and r: "\<exists>g' ts. Graph_match ex_g2 (Some (NamedNode [])) None None = Inr (g', ts) \<and>
              mset ts = mset (triples ex_g2)"
    by blast+
  from r have "\<exists>g' ts. Graph_match ex_g2 (Some (NamedNode [])) None None = Inr (g', ts) \<and>
              mset ts = {#ex_t, ex_t2#}"
    by (simp only: m)
  with nt reachable_ex_g2 e show ?thesis by blast
qed

end
